theory Spec2Isabelle
  imports Main "HOL-Library.Word"
begin

unbundle bit_operations_syntax

section \<open>Data model of the ring buffer\<close>

text \<open>
  The C type \<^verbatim>\<open>unsigned\<close> is modelled as a 32-bit word: addition and subtraction wrap
  around, comparison is the unsigned one.  The element type \<^verbatim>\<open>ring_buffer_t\<close> is a
  typedef of \<^verbatim>\<open>unsigned\<close>.
\<close>

type_synonym u32 = "32 word"
type_synonym ring_buffer_t = "32 word"

text \<open>
  \<^verbatim>\<open>struct Ring_Buffer { unsigned volatile front, back;
                        ring_buffer_t volatile data[RING_BUFFER_SIZE]; }\<close>.
  The array is a list; that it has exactly \<^verbatim>\<open>RING_BUFFER_SIZE\<close> elements is the
  predicate \<open>rb_array_ok\<close> below.
\<close>

record Ring_Buffer =
  front :: u32
  "back" :: u32
  data :: "ring_buffer_t list"

text \<open>
  \<^verbatim>\<open>#define RING_BUFFER_SIZE 4\<close>.  The functions below take the value of the macro as
  their first argument \<open>n\<close>, so that the statements cover every capacity the header
  accepts; \<open>RING_BUFFER_SIZE\<close> is the value both headers ship.
\<close>

definition RING_BUFFER_SIZE :: u32 where
  "RING_BUFFER_SIZE = 4"

text \<open>
  The header's compile-time check
  \<^verbatim>\<open>#if !(RING_BUFFER_SIZE && !(RING_BUFFER_SIZE & (RING_BUFFER_SIZE-1)))  #error\<close>:
  the capacity is accepted when this holds.
\<close>

definition size_check :: "u32 \<Rightarrow> bool" where
  "size_check n = (n \<noteq> 0 \<and> \<not> (n AND (n - 1) \<noteq> 0))"

definition rb_array_ok :: "u32 \<Rightarrow> Ring_Buffer \<Rightarrow> bool" where
  "rb_array_ok n rb = (length (data rb) = unat n)"

text \<open>
  Array accesses of C: an index outside the array is undefined behaviour, which the
  model reports as \<open>None\<close>.
\<close>

definition array_read :: "ring_buffer_t list \<Rightarrow> nat \<Rightarrow> ring_buffer_t option" where
  "array_read xs i = (if i < length xs then Some (xs ! i) else None)"

definition array_write :: "ring_buffer_t list \<Rightarrow> nat \<Rightarrow> ring_buffer_t \<Rightarrow> ring_buffer_t list option" where
  "array_write xs i v = (if i < length xs then Some (xs[i := v]) else None)"

section \<open>Version 2.0.0: the inlined functions of the header (modulo wrap-around)\<close>

text \<open>
  \<^verbatim>\<open>ring_buffer_init\<close> assigns every field of the structure, so its result does not
  depend on the previous contents; \<^verbatim>\<open>memset\<close> fills the \<^verbatim>\<open>RING_BUFFER_SIZE\<close> elements
  with zero.
\<close>

definition ring_buffer_init :: "u32 \<Rightarrow> Ring_Buffer" where
  "ring_buffer_init n = \<lparr>front = 0, back = 0, data = replicate (unat n) 0\<rparr>"

definition ring_buffer_clear :: "u32 \<Rightarrow> Ring_Buffer \<Rightarrow> Ring_Buffer" where
  "ring_buffer_clear n rb = rb\<lparr>data := replicate (unat n) 0, front := back rb\<rparr>"

text \<open>
  \<^verbatim>\<open>rb->data[(++rb->back) % RING_BUFFER_SIZE] = var;\<close>
  The remainder by zero is undefined behaviour as well.
\<close>

definition ring_buffer_put :: "u32 \<Rightarrow> Ring_Buffer \<Rightarrow> ring_buffer_t \<Rightarrow> Ring_Buffer option" where
  "ring_buffer_put n rb var =
     (let rb1 = rb\<lparr>back := back rb + 1\<rparr>
      in if n = 0 then None
         else map_option (\<lambda>d. rb1\<lparr>data := d\<rparr>)
                (array_write (data rb1) (unat (back rb1 mod n)) var))"

text \<open>
  \<^verbatim>\<open>if(rb->back - rb->front >= RING_BUFFER_SIZE) rb->front = rb->back - RING_BUFFER_SIZE;
  return rb->data[(++rb->front) % RING_BUFFER_SIZE];\<close>
\<close>

definition ring_buffer_get :: "u32 \<Rightarrow> Ring_Buffer \<Rightarrow> (ring_buffer_t \<times> Ring_Buffer) option" where
  "ring_buffer_get n rb =
     (let rb1 = (if back rb - front rb \<ge> n then rb\<lparr>front := back rb - n\<rparr> else rb);
          rb2 = rb1\<lparr>front := front rb1 + 1\<rparr>
      in if n = 0 then None
         else map_option (\<lambda>v. (v, rb2)) (array_read (data rb2) (unat (front rb2 mod n))))"

text \<open>
  \<^verbatim>\<open>if(rb->back - rb->front >= RING_BUFFER_SIZE) rb->front = rb->back - RING_BUFFER_SIZE;
  return rb->data[(rb->front+1) % RING_BUFFER_SIZE];\<close>
\<close>

definition ring_buffer_peek :: "u32 \<Rightarrow> Ring_Buffer \<Rightarrow> (ring_buffer_t \<times> Ring_Buffer) option" where
  "ring_buffer_peek n rb =
     (let rb1 = (if back rb - front rb \<ge> n then rb\<lparr>front := back rb - n\<rparr> else rb)
      in if n = 0 then None
         else map_option (\<lambda>v. (v, rb1)) (array_read (data rb1) (unat ((front rb1 + 1) mod n))))"

text \<open>The three observers return \<^verbatim>\<open>unsigned\<close>; a comparison of C yields 1 or 0.\<close>

definition ring_buffer_full :: "u32 \<Rightarrow> Ring_Buffer \<Rightarrow> u32" where
  "ring_buffer_full n rb = (if back rb - front rb \<ge> n then 1 else 0)"

definition ring_buffer_empty :: "Ring_Buffer \<Rightarrow> u32" where
  "ring_buffer_empty rb = (if back rb = front rb then 1 else 0)"

definition ring_buffer_count :: "u32 \<Rightarrow> Ring_Buffer \<Rightarrow> u32" where
  "ring_buffer_count n rb = (if ring_buffer_full n rb \<noteq> 0 then n else back rb - front rb)"

section \<open>Version 1.0.0: the functions of ringbuffer.c (wrap-around by masking)\<close>

definition ring_buffer_init_v1 :: "u32 \<Rightarrow> Ring_Buffer" where
  "ring_buffer_init_v1 n = \<lparr>front = 0, back = 0, data = replicate (unat n) 0\<rparr>"

definition ring_buffer_clear_v1 :: "u32 \<Rightarrow> Ring_Buffer \<Rightarrow> Ring_Buffer" where
  "ring_buffer_clear_v1 n rb = rb\<lparr>data := replicate (unat n) 0, front := back rb\<rparr>"

text \<open>\<^verbatim>\<open>rb->data[(++rb->back) & (RING_BUFFER_SIZE - 1)] = var;\<close>\<close>

definition ring_buffer_put_v1 :: "u32 \<Rightarrow> Ring_Buffer \<Rightarrow> ring_buffer_t \<Rightarrow> Ring_Buffer option" where
  "ring_buffer_put_v1 n rb var =
     (let rb1 = rb\<lparr>back := back rb + 1\<rparr>
      in map_option (\<lambda>d. rb1\<lparr>data := d\<rparr>)
           (array_write (data rb1) (unat (back rb1 AND (n - 1))) var))"

text \<open>
  \<^verbatim>\<open>if(rb->back - rb->front >= RING_BUFFER_SIZE) rb->front = rb->back - RING_BUFFER_SIZE;
  return rb->data[(++rb->front) & (RING_BUFFER_SIZE - 1)];\<close>
\<close>

definition ring_buffer_get_v1 :: "u32 \<Rightarrow> Ring_Buffer \<Rightarrow> (ring_buffer_t \<times> Ring_Buffer) option" where
  "ring_buffer_get_v1 n rb =
     (let rb1 = (if back rb - front rb \<ge> n then rb\<lparr>front := back rb - n\<rparr> else rb);
          rb2 = rb1\<lparr>front := front rb1 + 1\<rparr>
      in map_option (\<lambda>v. (v, rb2)) (array_read (data rb2) (unat (front rb2 AND (n - 1)))))"

definition ring_buffer_full_v1 :: "u32 \<Rightarrow> Ring_Buffer \<Rightarrow> u32" where
  "ring_buffer_full_v1 n rb = (if back rb - front rb \<ge> n then 1 else 0)"

definition ring_buffer_empty_v1 :: "Ring_Buffer \<Rightarrow> u32" where
  "ring_buffer_empty_v1 rb = (if back rb = front rb then 1 else 0)"

definition ring_buffer_count_v1 :: "u32 \<Rightarrow> Ring_Buffer \<Rightarrow> u32" where
  "ring_buffer_count_v1 n rb = (if ring_buffer_full_v1 n rb \<noteq> 0 then n else back rb - front rb)"

section \<open>Call sequences\<close>

text \<open>
  A call of one public function.  \<open>step\<close> performs it and gives the returned value
  (\<open>None\<close> for a \<^verbatim>\<open>void\<close> function) and the structure afterwards; \<open>run\<close> performs a
  list of calls from left to right and collects the returned values.
\<close>

datatype op = Op_init | Op_clear | Op_put ring_buffer_t | Op_get | Op_peek
  | Op_count | Op_full | Op_empty

fun step :: "u32 \<Rightarrow> op \<Rightarrow> Ring_Buffer \<Rightarrow> (u32 option \<times> Ring_Buffer) option" where
  "step n Op_init rb = Some (None, ring_buffer_init n)"
| "step n Op_clear rb = Some (None, ring_buffer_clear n rb)"
| "step n (Op_put v) rb = map_option (\<lambda>rb'. (None, rb')) (ring_buffer_put n rb v)"
| "step n Op_get rb = map_option (\<lambda>(v, rb'). (Some v, rb')) (ring_buffer_get n rb)"
| "step n Op_peek rb = map_option (\<lambda>(v, rb'). (Some v, rb')) (ring_buffer_peek n rb)"
| "step n Op_count rb = Some (Some (ring_buffer_count n rb), rb)"
| "step n Op_full rb = Some (Some (ring_buffer_full n rb), rb)"
| "step n Op_empty rb = Some (Some (ring_buffer_empty rb), rb)"

fun run :: "u32 \<Rightarrow> op list \<Rightarrow> Ring_Buffer \<Rightarrow> (u32 option list \<times> Ring_Buffer) option" where
  "run n [] rb = Some ([], rb)"
| "run n (c # cs) rb =
     (case step n c rb of
        None \<Rightarrow> None
      | Some (r, rb') \<Rightarrow>
          (case run n cs rb' of
             None \<Rightarrow> None
           | Some (rs, rb'') \<Rightarrow> Some (r # rs, rb'')))"

text \<open>Version 1.0.0 has the same functions except \<^verbatim>\<open>ring_buffer_peek\<close>.\<close>

datatype op_v1 = V1_init | V1_clear | V1_put ring_buffer_t | V1_get
  | V1_count | V1_full | V1_empty

fun step_v1 :: "u32 \<Rightarrow> op_v1 \<Rightarrow> Ring_Buffer \<Rightarrow> (u32 option \<times> Ring_Buffer) option" where
  "step_v1 n V1_init rb = Some (None, ring_buffer_init_v1 n)"
| "step_v1 n V1_clear rb = Some (None, ring_buffer_clear_v1 n rb)"
| "step_v1 n (V1_put v) rb = map_option (\<lambda>rb'. (None, rb')) (ring_buffer_put_v1 n rb v)"
| "step_v1 n V1_get rb = map_option (\<lambda>(v, rb'). (Some v, rb')) (ring_buffer_get_v1 n rb)"
| "step_v1 n V1_count rb = Some (Some (ring_buffer_count_v1 n rb), rb)"
| "step_v1 n V1_full rb = Some (Some (ring_buffer_full_v1 n rb), rb)"
| "step_v1 n V1_empty rb = Some (Some (ring_buffer_empty_v1 rb), rb)"

fun run_v1 :: "u32 \<Rightarrow> op_v1 list \<Rightarrow> Ring_Buffer \<Rightarrow> (u32 option list \<times> Ring_Buffer) option" where
  "run_v1 n [] rb = Some ([], rb)"
| "run_v1 n (c # cs) rb =
     (case step_v1 n c rb of
        None \<Rightarrow> None
      | Some (r, rb') \<Rightarrow>
          (case run_v1 n cs rb' of
             None \<Rightarrow> None
           | Some (rs, rb'') \<Rightarrow> Some (r # rs, rb'')))"

text \<open>The call of version 2.0.0 that has the same name.\<close>

fun op_of_v1 :: "op_v1 \<Rightarrow> op" where
  "op_of_v1 V1_init = Op_init"
| "op_of_v1 V1_clear = Op_clear"
| "op_of_v1 (V1_put v) = Op_put v"
| "op_of_v1 V1_get = Op_get"
| "op_of_v1 V1_count = Op_count"
| "op_of_v1 V1_full = Op_full"
| "op_of_v1 V1_empty = Op_empty"

text \<open>
  The loop of \<^verbatim>\<open>main\<close>,
  \<^verbatim>\<open>while(!ring_buffer_empty(&rb)) printf("%d ", ring_buffer_get(&rb));\<close>
  with the printed values as the result.  The loop need not end for every structure
  (after a read of an empty buffer the cursors are \<open>2^32 - 1\<close> apart), so the result is
  \<open>None\<close> when it does not end or when a read leaves the array.
\<close>

partial_function (option) drain :: "u32 \<Rightarrow> Ring_Buffer \<Rightarrow> ring_buffer_t list option" where
  "drain n rb =
     (if ring_buffer_empty rb \<noteq> 0 then Some []
      else case ring_buffer_get n rb of
             None \<Rightarrow> None
           | Some (v, rb') \<Rightarrow> Option.bind (drain n rb') (\<lambda>vs. Some (v # vs)))"

text \<open>
  Two conditions on a call sequence, for the statement about the order of the cursors:
  \<open>is_put\<close> recognises the calls of \<^verbatim>\<open>ring_buffer_put\<close>, and
  \<open>reads_guarded n cs rb\<close> says that, running \<open>cs\<close> from \<open>rb\<close>, every call of
  \<^verbatim>\<open>ring_buffer_get\<close> is made when \<^verbatim>\<open>ring_buffer_empty\<close> returns 0, the way
  \<^verbatim>\<open>main\<close> calls it.
\<close>

fun is_put :: "op \<Rightarrow> bool" where
  "is_put (Op_put v) = True"
| "is_put c = False"

fun reads_guarded :: "u32 \<Rightarrow> op list \<Rightarrow> Ring_Buffer \<Rightarrow> bool" where
  "reads_guarded n [] rb = True"
| "reads_guarded n (c # cs) rb =
     ((c = Op_get \<longrightarrow> ring_buffer_empty rb = 0)
      \<and> (case step n c rb of None \<Rightarrow> False | Some (r, rb') \<Rightarrow> reads_guarded n cs rb'))"

section \<open>Array accesses stay inside the array\<close>

lemma mod_index_in_range: "n \<noteq> 0 \<Longrightarrow> unat (x mod n) < unat (n :: u32)"
  by (simp add: unat_mod unat_gt_0)

lemma mask_index_in_range: "n \<noteq> 0 \<Longrightarrow> unat (x AND (n - 1)) < unat (n :: u32)"
proof -
  assume n: "n \<noteq> 0"
  have "x AND (n - 1) \<le> n - 1" by (rule word_and_le1)
  then have "unat (x AND (n - 1)) \<le> unat (n - 1)" by (simp add: word_le_nat_alt)
  also have "unat (n - 1) = unat n - 1" using n by (rule unat_minus_one)
  also have "\<dots> < unat n" using n by (simp add: unat_gt_0)
  finally show ?thesis .
qed

lemma put_ok:
  "n \<noteq> 0 \<Longrightarrow> rb_array_ok n rb \<Longrightarrow>
   ring_buffer_put n rb v
     = Some (rb\<lparr>back := back rb + 1, data := (data rb)[unat ((back rb + 1) mod n) := v]\<rparr>)"
  by (simp add: ring_buffer_put_def rb_array_ok_def array_write_def mod_index_in_range)

lemma get_ok:
  "n \<noteq> 0 \<Longrightarrow> rb_array_ok n rb \<Longrightarrow> \<not> n \<le> back rb - front rb \<Longrightarrow>
   ring_buffer_get n rb
     = Some (data rb ! unat ((front rb + 1) mod n), rb\<lparr>front := front rb + 1\<rparr>)"
  by (simp add: ring_buffer_get_def rb_array_ok_def array_read_def mod_index_in_range)

lemma get_ok_resync:
  "n \<noteq> 0 \<Longrightarrow> rb_array_ok n rb \<Longrightarrow> n \<le> back rb - front rb \<Longrightarrow>
   ring_buffer_get n rb
     = Some (data rb ! unat ((back rb - n + 1) mod n), rb\<lparr>front := back rb - n + 1\<rparr>)"
  by (simp add: ring_buffer_get_def rb_array_ok_def array_read_def mod_index_in_range)

lemma peek_ok:
  "n \<noteq> 0 \<Longrightarrow> rb_array_ok n rb \<Longrightarrow> \<not> n \<le> back rb - front rb \<Longrightarrow>
   ring_buffer_peek n rb = Some (data rb ! unat ((front rb + 1) mod n), rb)"
  by (simp add: ring_buffer_peek_def rb_array_ok_def array_read_def mod_index_in_range)

lemma peek_ok_resync:
  "n \<noteq> 0 \<Longrightarrow> rb_array_ok n rb \<Longrightarrow> n \<le> back rb - front rb \<Longrightarrow>
   ring_buffer_peek n rb
     = Some (data rb ! unat ((back rb - n + 1) mod n), rb\<lparr>front := back rb - n\<rparr>)"
  by (simp add: ring_buffer_peek_def rb_array_ok_def array_read_def mod_index_in_range)

lemma put_v1_ok:
  "n \<noteq> 0 \<Longrightarrow> rb_array_ok n rb \<Longrightarrow>
   ring_buffer_put_v1 n rb v
     = Some (rb\<lparr>back := back rb + 1, data := (data rb)[unat ((back rb + 1) AND (n - 1)) := v]\<rparr>)"
  by (simp add: ring_buffer_put_v1_def rb_array_ok_def array_write_def mask_index_in_range)

lemma get_v1_ok:
  "n \<noteq> 0 \<Longrightarrow> rb_array_ok n rb \<Longrightarrow> \<exists>v rb'. ring_buffer_get_v1 n rb = Some (v, rb') \<and> rb_array_ok n rb'"
  by (simp add: ring_buffer_get_v1_def rb_array_ok_def array_read_def mask_index_in_range)

lemma step_array_ok:
  "n \<noteq> 0 \<Longrightarrow> rb_array_ok n rb \<Longrightarrow> \<exists>r rb'. step n c rb = Some (r, rb') \<and> rb_array_ok n rb'"
proof (cases c)
  case Op_get
  assume "n \<noteq> 0" "rb_array_ok n rb"
  with Op_get show ?thesis
    by (cases "n \<le> back rb - front rb") (simp_all add: get_ok get_ok_resync rb_array_ok_def)
next
  case Op_peek
  assume "n \<noteq> 0" "rb_array_ok n rb"
  with Op_peek show ?thesis
    by (cases "n \<le> back rb - front rb") (simp_all add: peek_ok peek_ok_resync rb_array_ok_def)
qed (simp_all add: put_ok rb_array_ok_def ring_buffer_init_def ring_buffer_clear_def)

lemma run_array_ok:
  "n \<noteq> 0 \<Longrightarrow> rb_array_ok n rb \<Longrightarrow> \<exists>rs rb'. run n cs rb = Some (rs, rb') \<and> rb_array_ok n rb'"
proof (induction cs arbitrary: rb)
  case Nil
  then show ?case by simp
next
  case (Cons c cs)
  from Cons.prems obtain r rb1 where s: "step n c rb = Some (r, rb1)" and ok: "rb_array_ok n rb1"
    using step_array_ok by blast
  from Cons.IH [OF Cons.prems(1) ok] obtain rs rb2
    where "run n cs rb1 = Some (rs, rb2)" and "rb_array_ok n rb2" by blast
  with s show ?case by simp
qed

lemma step_v1_array_ok:
  "n \<noteq> 0 \<Longrightarrow> rb_array_ok n rb \<Longrightarrow> \<exists>r rb'. step_v1 n c rb = Some (r, rb') \<and> rb_array_ok n rb'"
proof (cases c)
  case V1_get
  assume "n \<noteq> 0" "rb_array_ok n rb"
  then obtain v rb' where "ring_buffer_get_v1 n rb = Some (v, rb')" "rb_array_ok n rb'"
    using get_v1_ok by blast
  with V1_get show ?thesis by simp
qed (simp_all add: put_v1_ok rb_array_ok_def ring_buffer_init_v1_def ring_buffer_clear_v1_def)

lemma run_v1_array_ok:
  "n \<noteq> 0 \<Longrightarrow> rb_array_ok n rb \<Longrightarrow> \<exists>rs rb'. run_v1 n cs rb = Some (rs, rb') \<and> rb_array_ok n rb'"
proof (induction cs arbitrary: rb)
  case Nil
  then show ?case by simp
next
  case (Cons c cs)
  from Cons.prems obtain r rb1 where s: "step_v1 n c rb = Some (r, rb1)" and ok: "rb_array_ok n rb1"
    using step_v1_array_ok by blast
  from Cons.IH [OF Cons.prems(1) ok] obtain rs rb2
    where "run_v1 n cs rb1 = Some (rs, rb2)" and "rb_array_ok n rb2" by blast
  with s show ?case by simp
qed

section \<open>Arithmetic of the cursors\<close>

lemma resync_le: "n \<noteq> 0 \<Longrightarrow> f \<le> b \<Longrightarrow> n \<le> b - f \<Longrightarrow> b - n \<le> b \<and> b - n + 1 \<le> (b :: u32)"
  by unat_arith

lemma advance_le: "f \<le> b \<Longrightarrow> b \<noteq> f \<Longrightarrow> f + 1 \<le> (b :: u32)"
  by unat_arith

lemma occupancy_after_resync_get: "n \<noteq> 0 \<Longrightarrow> n - 1 < (n :: u32)"
  by unat_arith

lemma occupancy_after_get: "\<not> n \<le> b - f \<Longrightarrow> b \<noteq> f \<Longrightarrow> b - (f + 1) < (n :: u32)"
  by unat_arith

lemma back_advance:
  assumes "unat b + 1 < 2 ^ 32"
  shows "unat (b + 1 :: u32) = unat b + 1" and "b \<le> b + 1"
proof -
  from assms have "unat b + unat (1 :: u32) < 2 ^ LENGTH(32)" by simp
  then have "unat (b + 1) = unat b + unat (1 :: u32)" by (simp only: unat_add_lem)
  then show "unat (b + 1) = unat b + 1" by simp
  then show "b \<le> b + 1" by (simp add: word_le_nat_alt)
qed

section \<open>Masking with a power of two\<close>

lemma nat_and_pred_zero_pow2:
  fixes m :: nat
  shows "0 < m \<Longrightarrow> m AND (m - 1) = 0 \<Longrightarrow> \<exists>k. m = 2 ^ k"
proof (induction m rule: less_induct)
  case (less m)
  show ?case
  proof (cases "even m")
    case True
    then obtain q where q: "m = 2 * q" by (auto elim: evenE)
    with less.prems have qpos: "0 < q" by simp
    have "(m - 1) div 2 = q - 1" using q qpos by (cases q) simp_all
    moreover have "m div 2 = q" using q by simp
    moreover have "m AND (m - 1)
        = of_bool (odd m \<and> odd (m - 1)) + 2 * ((m div 2) AND ((m - 1) div 2))"
      by (rule and_rec)
    ultimately have "q AND (q - 1) = 0" using less.prems by simp
    moreover have "q < m" using q qpos by simp
    ultimately obtain k where "q = 2 ^ k" using less.IH qpos by blast
    with q have "m = 2 ^ Suc k" by simp
    then show ?thesis by blast
  next
    case False
    then obtain q where q: "m = 2 * q + 1" by (auto elim: oddE)
    have "m AND (m - 1)
        = of_bool (odd m \<and> odd (m - 1)) + 2 * ((m div 2) AND ((m - 1) div 2))"
      by (rule and_rec)
    with q less.prems have "q = 0" by simp
    with q have "m = 2 ^ 0" by simp
    then show ?thesis by blast
  qed
qed

lemma size_check_pow2:
  assumes "size_check n"
  shows "\<exists>k < 32. n = 2 ^ k"
proof -
  from assms have n0: "n \<noteq> 0" and z: "n AND (n - 1) = 0"
    by (simp_all add: size_check_def)
  have "unat n AND unat (n - 1) = unat (n AND (n - 1))"
    by (simp add: unsigned_and_eq)
  with z n0 have "unat n AND (unat n - 1) = 0" by (simp add: unat_minus_one)
  moreover from n0 have "0 < unat n" by (simp add: unat_gt_0)
  ultimately obtain k where k: "unat n = 2 ^ k"
    using nat_and_pred_zero_pow2 by blast
  have "unat n < 2 ^ LENGTH(32)" by (rule unsigned_less)
  with k have "(2 :: nat) ^ k < 2 ^ LENGTH(32)" by simp
  then have "k < LENGTH(32)" by (rule power_less_imp_less_exp [rotated]) simp
  then have "k < 32" by simp
  moreover have "n = 2 ^ k"
  proof -
    have "n = of_nat (unat n)" by simp
    also have "\<dots> = 2 ^ k" by (simp only: k) simp
    finally show ?thesis .
  qed
  ultimately show ?thesis by blast
qed

lemma mask_eq_mod:
  assumes "size_check n"
  shows "x AND (n - 1) = x mod (n :: u32)"
proof -
  from assms obtain k where "n = 2 ^ k" using size_check_pow2 by blast
  then show ?thesis
    by (simp add: mask_eq_decr_exp [symmetric] take_bit_eq_mask [symmetric] take_bit_eq_mod)
qed

lemma step_v1_eq: "size_check n \<Longrightarrow> step_v1 n c rb = step n (op_of_v1 c) rb"
proof -
  assume sc: "size_check n"
  then have n0: "n \<noteq> 0" by (simp add: size_check_def)
  show ?thesis
    by (cases c)
      (simp_all add: mask_eq_mod [OF sc] n0 ring_buffer_init_v1_def ring_buffer_init_def
        ring_buffer_clear_v1_def ring_buffer_clear_def ring_buffer_put_v1_def ring_buffer_put_def
        ring_buffer_get_v1_def ring_buffer_get_def ring_buffer_count_v1_def ring_buffer_count_def
        ring_buffer_full_v1_def ring_buffer_full_def ring_buffer_empty_v1_def ring_buffer_empty_def)
qed

section \<open>Call sequences that keep the cursors in order\<close>

lemma step_keeps_order:
  assumes n: "n \<noteq> 0" and ok: "rb_array_ok n rb" and le: "front rb \<le> back rb"
    and g: "c = Op_get \<longrightarrow> ring_buffer_empty rb = 0"
    and p: "is_put c \<longrightarrow> unat (back rb) + 1 < 2 ^ 32"
  shows "\<exists>r rb'. step n c rb = Some (r, rb') \<and> rb_array_ok n rb' \<and> front rb' \<le> back rb'
           \<and> unat (back rb') \<le> unat (back rb) + (if is_put c then 1 else 0)"
proof (cases c)
  case Op_init
  then show ?thesis by (simp add: ring_buffer_init_def rb_array_ok_def)
next
  case Op_clear
  with ok show ?thesis by (simp add: ring_buffer_clear_def rb_array_ok_def)
next
  case (Op_put v)
  with p have "unat (back rb) + 1 < 2 ^ 32" by simp
  then have "unat (back rb + 1) = unat (back rb) + 1" and "back rb \<le> back rb + 1"
    by (rule back_advance)+
  with Op_put n ok le show ?thesis by (simp add: put_ok rb_array_ok_def)
next
  case Op_get
  with g have ne: "back rb \<noteq> front rb" by (simp add: ring_buffer_empty_def split: if_splits)
  show ?thesis
  proof (cases "n \<le> back rb - front rb")
    case True
    with n le have "back rb - n + 1 \<le> back rb" by (simp add: resync_le)
    with True Op_get n ok show ?thesis by (simp add: get_ok_resync rb_array_ok_def)
  next
    case False
    from le ne have "front rb + 1 \<le> back rb" by (rule advance_le)
    with False Op_get n ok show ?thesis by (simp add: get_ok rb_array_ok_def)
  qed
next
  case Op_peek
  show ?thesis
  proof (cases "n \<le> back rb - front rb")
    case True
    with n le have "back rb - n \<le> back rb" by (simp add: resync_le)
    with True Op_peek n ok show ?thesis by (simp add: peek_ok_resync rb_array_ok_def)
  next
    case False
    with Op_peek n ok le show ?thesis by (simp add: peek_ok)
  qed
next
  case Op_count
  with ok le show ?thesis by simp
next
  case Op_full
  with ok le show ?thesis by simp
next
  case Op_empty
  with ok le show ?thesis by simp
qed

lemma run_keeps_order:
  "n \<noteq> 0 \<Longrightarrow> rb_array_ok n rb \<Longrightarrow> front rb \<le> back rb \<Longrightarrow> reads_guarded n cs rb \<Longrightarrow>
   unat (back rb) + length (filter is_put cs) < 2 ^ 32 \<Longrightarrow>
   \<exists>rs rb'. run n cs rb = Some (rs, rb') \<and> front rb' \<le> back rb'"
proof (induction cs arbitrary: rb)
  case Nil
  then show ?case by simp
next
  case (Cons c cs)
  from Cons.prems(4) have g: "c = Op_get \<longrightarrow> ring_buffer_empty rb = 0" by simp
  from Cons.prems(5) have p: "is_put c \<longrightarrow> unat (back rb) + 1 < 2 ^ 32"
    by (cases "is_put c") simp_all
  from step_keeps_order [OF Cons.prems(1-3) g p] obtain r rb1
    where s: "step n c rb = Some (r, rb1)" and ok1: "rb_array_ok n rb1"
      and le1: "front rb1 \<le> back rb1"
      and b1: "unat (back rb1) \<le> unat (back rb) + (if is_put c then 1 else 0)"
    by blast
  from Cons.prems(4) s have g1: "reads_guarded n cs rb1" by simp
  from Cons.prems(5) b1 have "unat (back rb1) + length (filter is_put cs) < 2 ^ 32"
    by (cases "is_put c") simp_all
  from Cons.IH [OF Cons.prems(1) ok1 le1 g1 this] obtain rs rb2
    where "run n cs rb1 = Some (rs, rb2)" and "front rb2 \<le> back rb2" by blast
  with s show ?case by simp
qed

section \<open>Writing and reading back within the capacity\<close>

lemma run_append:
  "run n (as @ bs) rb =
     (case run n as rb of
        None \<Rightarrow> None
      | Some (rs, rb1) \<Rightarrow>
          (case run n bs rb1 of
             None \<Rightarrow> None
           | Some (rs', rb2) \<Rightarrow> Some (rs @ rs', rb2)))"
  by (induction as arbitrary: rb) (auto split: option.splits)

lemma slot_of_nat:
  "k \<le> unat n \<Longrightarrow> unat ((of_nat k :: u32) mod n) = k mod unat n"
  by (simp add: unat_mod le_unat_uoi)

lemma slots_differ:
  fixes N :: nat
  shows "i < k \<Longrightarrow> Suc k \<le> N \<Longrightarrow> Suc i mod N \<noteq> Suc k mod N"
  by (cases "Suc k = N") auto

lemma puts_state:
  "n \<noteq> 0 \<Longrightarrow> length vs \<le> unat n \<Longrightarrow>
   \<exists>d. run n (map Op_put vs) (ring_buffer_init n)
         = Some (map (\<lambda>v. None) vs, \<lparr>front = 0, back = of_nat (length vs), data = d\<rparr>)
       \<and> length d = unat n
       \<and> (\<forall>i < length vs. d ! (Suc i mod unat n) = vs ! i)"
proof (induction vs rule: rev_induct)
  case Nil
  then show ?case by (simp add: ring_buffer_init_def)
next
  case (snoc v vs)
  let ?k = "length vs"
  from snoc.prems have le: "Suc ?k \<le> unat n" by simp
  with snoc obtain d where
    r: "run n (map Op_put vs) (ring_buffer_init n)
          = Some (map (\<lambda>v. None) vs, \<lparr>front = 0, back = of_nat ?k, data = d\<rparr>)"
    and len: "length d = unat n"
    and old: "\<forall>i < ?k. d ! (Suc i mod unat n) = vs ! i"
    by auto
  let ?rb = "\<lparr>front = 0, back = of_nat ?k, data = d\<rparr>"
  let ?j = "Suc ?k mod unat n"
  have ok: "rb_array_ok n ?rb" using len by (simp add: rb_array_ok_def)
  have idx: "unat ((of_nat ?k + 1 :: u32) mod n) = ?j"
    using slot_of_nat [OF le] by (simp add: add.commute)
  have jlt: "?j < length d" using len snoc.prems(1) by (simp add: unat_gt_0)
  have p: "ring_buffer_put n ?rb v
      = Some \<lparr>front = 0, back = of_nat (Suc ?k), data = d[?j := v]\<rparr>"
    using put_ok [OF snoc.prems(1) ok, of v] idx by simp
  have new: "\<forall>i < Suc ?k. d[?j := v] ! (Suc i mod unat n) = (vs @ [v]) ! i"
  proof (intro allI impI)
    fix i assume i: "i < Suc ?k"
    show "d[?j := v] ! (Suc i mod unat n) = (vs @ [v]) ! i"
    proof (cases "i = ?k")
      case True
      with jlt show ?thesis by simp
    next
      case False
      with i have ik: "i < ?k" by simp
      then have "Suc i mod unat n \<noteq> ?j" using le by (rule slots_differ)
      with ik old show ?thesis by (simp add: nth_append)
    qed
  qed
  have "run n (map Op_put (vs @ [v])) (ring_buffer_init n)
      = Some (map (\<lambda>v. None) (vs @ [v]), \<lparr>front = 0, back = of_nat (Suc ?k), data = d[?j := v]\<rparr>)"
    using r p by (simp add: run_append)
  with len new show ?case by auto
qed

lemma get_at:
  assumes n: "n \<noteq> 0" and len: "length d = unat n" and jk: "j < k" and kn: "k \<le> unat n"
  shows "ring_buffer_get n \<lparr>front = of_nat j, back = of_nat k, data = d\<rparr>
       = Some (d ! (Suc j mod unat n), \<lparr>front = of_nat (Suc j), back = of_nat k, data = d\<rparr>)"
proof -
  let ?rb = "\<lparr>front = of_nat j, back = of_nat k, data = d\<rparr>"
  have ok: "rb_array_ok n ?rb" using len by (simp add: rb_array_ok_def)
  have uk: "unat (of_nat k :: u32) = k" using kn by (rule le_unat_uoi)
  have uj: "unat (of_nat j :: u32) = j" using jk kn by (intro le_unat_uoi [of _ n]) simp
  have idx: "unat ((of_nat j + 1 :: u32) mod n) = Suc j mod unat n"
    using slot_of_nat [of "Suc j" n] jk kn by (simp add: add.commute)
  have diff: "unat (of_nat k - of_nat j :: u32) = k - j"
    using uk uj jk by (simp add: unat_sub word_le_nat_alt)
  show ?thesis
  proof (cases "n \<le> back ?rb - front ?rb")
    case True
    then have "unat n \<le> k - j" using diff by (simp add: word_le_nat_alt)
    with jk kn have j0: "j = 0" and kN: "k = unat n" by simp_all
    then have "(of_nat k :: u32) - n = 0" by simp
    with get_ok_resync [OF n ok True] idx j0 show ?thesis by simp
  next
    case False
    with get_ok [OF n ok False] idx show ?thesis by simp
  qed
qed

lemma gets_state:
  "n \<noteq> 0 \<Longrightarrow> length d = unat n \<Longrightarrow> k \<le> unat n \<Longrightarrow> j \<le> k \<Longrightarrow> m = k - j \<Longrightarrow>
   run n (replicate m Op_get) \<lparr>front = of_nat j, back = of_nat k, data = d\<rparr>
     = Some (map (\<lambda>i. Some (d ! (Suc i mod unat n))) [j..<k],
             \<lparr>front = of_nat k, back = of_nat k, data = d\<rparr>)"
proof (induction m arbitrary: j)
  case 0
  then show ?case by simp
next
  case (Suc m)
  from Suc.prems have jk: "j < k" by simp
  have g: "ring_buffer_get n \<lparr>front = of_nat j, back = of_nat k, data = d\<rparr>
       = Some (d ! (Suc j mod unat n), \<lparr>front = of_nat (Suc j), back = of_nat k, data = d\<rparr>)"
    using Suc.prems(1,2) jk Suc.prems(3) by (rule get_at)
  have "run n (replicate m Op_get) \<lparr>front = of_nat (Suc j), back = of_nat k, data = d\<rparr>
     = Some (map (\<lambda>i. Some (d ! (Suc i mod unat n))) [Suc j..<k],
             \<lparr>front = of_nat k, back = of_nat k, data = d\<rparr>)"
    using Suc.prems jk by (intro Suc.IH) simp_all
  with g jk show ?case by (simp add: upt_conv_Cons)
qed

lemma count_after_puts:
  "k \<le> unat n \<Longrightarrow> ring_buffer_count n \<lparr>front = 0, back = of_nat k, data = d\<rparr> = of_nat k"
proof -
  assume kn: "k \<le> unat n"
  then have uk: "unat (of_nat k :: u32) = k" by (rule le_unat_uoi)
  show ?thesis
  proof (cases "k = unat n")
    case True
    then show ?thesis by (simp add: ring_buffer_count_def ring_buffer_full_def)
  next
    case False
    with kn uk have "\<not> n \<le> of_nat k" by (simp add: word_le_nat_alt)
    then show ?thesis by (simp add: ring_buffer_count_def ring_buffer_full_def)
  qed
qed

section \<open>The drain loop, one iteration at a time\<close>

lemma drain_stop: "ring_buffer_empty rb \<noteq> 0 \<Longrightarrow> drain n rb = Some []"
  by (subst drain.simps) simp

lemma drain_next:
  "ring_buffer_empty rb = 0 \<Longrightarrow> ring_buffer_get n rb = Some (v, rb') \<Longrightarrow> drain n rb' = Some vs
   \<Longrightarrow> drain n rb = Some (v # vs)"
  by (subst drain.simps) simp

section \<open>The demonstration sequence of main\<close>

text \<open>
  Claim C1.  With capacity 4, after \<^verbatim>\<open>ring_buffer_init\<close> and the six calls
  put(10), put(20), put(30), put(40), put(50), put(60) of \<^verbatim>\<open>main\<close>,
  \<^verbatim>\<open>ring_buffer_full\<close> returns 1 (true), \<^verbatim>\<open>ring_buffer_count\<close> returns 4, and the
  drain loop of \<^verbatim>\<open>main\<close> ends after reading 30, 40, 50, 60 in this order: the values
  10 and 20 were overwritten.
\<close>

theorem C1_main_sequence:
  "\<exists>rb. run RING_BUFFER_SIZE
          [Op_put 10, Op_put 20, Op_put 30, Op_put 40, Op_put 50, Op_put 60]
          (ring_buffer_init RING_BUFFER_SIZE)
        = Some ([None, None, None, None, None, None], rb)
      \<and> ring_buffer_full RING_BUFFER_SIZE rb = 1
      \<and> ring_buffer_count RING_BUFFER_SIZE rb = 4
      \<and> drain RING_BUFFER_SIZE rb = Some [30, 40, 50, 60]"
proof -
  let ?d = "[40, 50, 60, 30 :: ring_buffer_t]"
  let ?rb = "\<lparr>front = 0, back = 6, data = ?d\<rparr>"
  have puts: "run 4 [Op_put 10, Op_put 20, Op_put 30, Op_put 40, Op_put 50, Op_put 60]
                (ring_buffer_init 4) = Some ([None, None, None, None, None, None], ?rb)"
    by code_simp
  have full: "ring_buffer_full 4 ?rb = 1"
    by (simp add: ring_buffer_full_def)
  have count: "ring_buffer_count 4 ?rb = 4"
    by (simp add: ring_buffer_count_def ring_buffer_full_def)
  have g1: "ring_buffer_get 4 ?rb = Some (30, \<lparr>front = 3, back = 6, data = ?d\<rparr>)"
    by code_simp
  have g2: "ring_buffer_get 4 \<lparr>front = 3, back = 6, data = ?d\<rparr>
            = Some (40, \<lparr>front = 4, back = 6, data = ?d\<rparr>)"
    by code_simp
  have g3: "ring_buffer_get 4 \<lparr>front = 4, back = 6, data = ?d\<rparr>
            = Some (50, \<lparr>front = 5, back = 6, data = ?d\<rparr>)"
    by code_simp
  have g4: "ring_buffer_get 4 \<lparr>front = 5, back = 6, data = ?d\<rparr>
            = Some (60, \<lparr>front = 6, back = 6, data = ?d\<rparr>)"
    by code_simp
  have d0: "drain 4 \<lparr>front = 6, back = 6, data = ?d\<rparr> = Some []"
    by (rule drain_stop) (simp add: ring_buffer_empty_def)
  have d4: "drain 4 \<lparr>front = 5, back = 6, data = ?d\<rparr> = Some [60]"
    by (rule drain_next [OF _ g4 d0]) (simp add: ring_buffer_empty_def)
  have d3: "drain 4 \<lparr>front = 4, back = 6, data = ?d\<rparr> = Some [50, 60]"
    by (rule drain_next [OF _ g3 d4]) (simp add: ring_buffer_empty_def)
  have d2: "drain 4 \<lparr>front = 3, back = 6, data = ?d\<rparr> = Some [40, 50, 60]"
    by (rule drain_next [OF _ g2 d3]) (simp add: ring_buffer_empty_def)
  have loop: "drain 4 ?rb = Some [30, 40, 50, 60]"
    by (rule drain_next [OF _ g1 d2]) (simp add: ring_buffer_empty_def)
  show ?thesis
    unfolding RING_BUFFER_SIZE_def
    by (rule exI [of _ ?rb]) (simp only: puts full count loop simp_thms)
qed

section \<open>First in, first out\<close>

text \<open>
  Claim C2.  After \<^verbatim>\<open>ring_buffer_init\<close> and \<open>k\<close> calls of \<^verbatim>\<open>ring_buffer_put\<close>
  with \<open>k\<close> at most the capacity, \<^verbatim>\<open>ring_buffer_count\<close> returns \<open>k\<close>, and \<open>k\<close>
  calls of \<^verbatim>\<open>ring_buffer_get\<close> return the \<open>k\<close> values that were put, in the order
  in which they were put.
\<close>

theorem C2_fifo_within_capacity:
  assumes "length vs \<le> unat n"
  shows "\<exists>rb. run n (map Op_put vs) (ring_buffer_init n) = Some (map (\<lambda>v. None) vs, rb)
            \<and> ring_buffer_count n rb = of_nat (length vs)
            \<and> (\<exists>rb'. run n (replicate (length vs) Op_get) rb = Some (map Some vs, rb'))"
proof (cases "vs = []")
  case True
  then show ?thesis
    by (simp add: ring_buffer_init_def ring_buffer_count_def ring_buffer_full_def)
next
  case False
  with assms have n: "n \<noteq> 0" by auto
  let ?k = "length vs"
  from puts_state [OF n assms] obtain d where
    r: "run n (map Op_put vs) (ring_buffer_init n)
          = Some (map (\<lambda>v. None) vs, \<lparr>front = 0, back = of_nat ?k, data = d\<rparr>)"
    and len: "length d = unat n"
    and vals: "\<forall>i < ?k. d ! (Suc i mod unat n) = vs ! i"
    by blast
  have c: "ring_buffer_count n \<lparr>front = 0, back = of_nat ?k, data = d\<rparr> = of_nat ?k"
    using assms by (rule count_after_puts)
  have "run n (replicate ?k Op_get) \<lparr>front = of_nat 0, back = of_nat ?k, data = d\<rparr>
     = Some (map (\<lambda>i. Some (d ! (Suc i mod unat n))) [0..<?k],
             \<lparr>front = of_nat ?k, back = of_nat ?k, data = d\<rparr>)"
    using n len assms by (intro gets_state) simp_all
  moreover have "map (\<lambda>i. Some (d ! (Suc i mod unat n))) [0..<?k] = map Some vs"
    using vals by (intro nth_equalityI) simp_all
  ultimately have "run n (replicate ?k Op_get) \<lparr>front = 0, back = of_nat ?k, data = d\<rparr>
     = Some (map Some vs, \<lparr>front = of_nat ?k, back = of_nat ?k, data = d\<rparr>)"
    by simp
  with r c show ?thesis by blast
qed

theorem C2_fifo_within_capacity_witness:
  "length [7, 8, 9, 10 :: ring_buffer_t] \<le> unat RING_BUFFER_SIZE
   \<and> (\<exists>rb. run RING_BUFFER_SIZE (map Op_put [7, 8, 9, 10]) (ring_buffer_init RING_BUFFER_SIZE)
              = Some (map (\<lambda>v. None) [7, 8, 9, 10 :: ring_buffer_t], rb)
            \<and> ring_buffer_count RING_BUFFER_SIZE rb = of_nat (length [7, 8, 9, 10 :: ring_buffer_t])
            \<and> (\<exists>rb'. run RING_BUFFER_SIZE (replicate (length [7, 8, 9, 10 :: ring_buffer_t]) Op_get) rb
                   = Some (map Some [7, 8, 9, 10], rb')))"
proof -
  have l: "length [7, 8, 9, 10 :: ring_buffer_t] \<le> unat RING_BUFFER_SIZE"
    by (simp add: RING_BUFFER_SIZE_def)
  from l C2_fifo_within_capacity [OF l] show ?thesis by (rule conjI)
qed

section \<open>The distance between the cursors\<close>

text \<open>
  Claim C3 as stated, \<open>back - front \<le> RING_BUFFER_SIZE\<close> in every state reached from
  \<^verbatim>\<open>ring_buffer_init\<close>, fails: \<^verbatim>\<open>ring_buffer_put\<close> does not move \<open>front\<close>, and
  after five calls of it with capacity 4 the cursors are 5 apart.
\<close>

theorem C3_counterexample:
  "run RING_BUFFER_SIZE [Op_put 10, Op_put 20, Op_put 30, Op_put 40, Op_put 50]
     (ring_buffer_init RING_BUFFER_SIZE)
   = Some ([None, None, None, None, None], \<lparr>front = 0, back = 5, data = [40, 50, 20, 30]\<rparr>)
   \<and> \<not> (back \<lparr>front = 0, back = 5, data = [40, 50, 20, 30]\<rparr>
          - front \<lparr>front = 0, back = 5, data = [40, 50, 20, 30]\<rparr> \<le> RING_BUFFER_SIZE)"
  unfolding RING_BUFFER_SIZE_def by code_simp

text \<open>
  Claim C3, amended.  The bound holds right after a read, not in every state.  On every
  structure (capacity not zero, array of \<^verbatim>\<open>RING_BUFFER_SIZE\<close> elements):
  after \<^verbatim>\<open>ring_buffer_peek\<close>, \<open>back - front \<le> RING_BUFFER_SIZE\<close>;
  after \<^verbatim>\<open>ring_buffer_get\<close> on a structure with \<open>back \<noteq> front\<close>,
  \<open>back - front < RING_BUFFER_SIZE\<close>;
  and \<^verbatim>\<open>ring_buffer_put\<close> leaves \<open>front\<close> as it is, the new \<open>back - front\<close> being
  the old one plus one in 32-bit wrap-around arithmetic (from \<open>2^32 - 1\<close> it goes to 0).
  Nothing is said about how large the distance is after several calls of
  \<^verbatim>\<open>ring_buffer_put\<close>.
\<close>

theorem C3_occupancy_after_read:
  assumes "n \<noteq> 0" and "rb_array_ok n rb"
  shows "(\<exists>v rb'. ring_buffer_peek n rb = Some (v, rb') \<and> back rb' - front rb' \<le> n)
       \<and> (back rb \<noteq> front rb \<longrightarrow>
            (\<exists>v rb'. ring_buffer_get n rb = Some (v, rb') \<and> back rb' - front rb' < n))
       \<and> (\<exists>rb'. ring_buffer_put n rb x = Some rb' \<and> front rb' = front rb
               \<and> back rb' - front rb' = back rb - front rb + 1)"
proof (cases "n \<le> back rb - front rb")
  case True
  with assms show ?thesis
    by (simp add: peek_ok_resync get_ok_resync put_ok occupancy_after_resync_get)
next
  case False
  with assms show ?thesis
    by (auto simp: peek_ok get_ok put_ok occupancy_after_get)
qed

theorem C3_occupancy_after_read_witness:
  "RING_BUFFER_SIZE \<noteq> 0
   \<and> rb_array_ok RING_BUFFER_SIZE \<lparr>front = 0, back = 5, data = [40, 50, 20, 30]\<rparr>
   \<and> (\<exists>v rb'. ring_buffer_peek RING_BUFFER_SIZE \<lparr>front = 0, back = 5, data = [40, 50, 20, 30]\<rparr>
                 = Some (v, rb')
               \<and> back rb' - front rb' \<le> RING_BUFFER_SIZE)
   \<and> back \<lparr>front = 0, back = 5, data = [40, 50, 20, 30 :: ring_buffer_t]\<rparr>
       \<noteq> front \<lparr>front = 0, back = 5, data = [40, 50, 20, 30 :: ring_buffer_t]\<rparr>
   \<and> (\<exists>v rb'. ring_buffer_get RING_BUFFER_SIZE \<lparr>front = 0, back = 5, data = [40, 50, 20, 30]\<rparr>
                 = Some (v, rb')
               \<and> back rb' - front rb' < RING_BUFFER_SIZE)
   \<and> (\<exists>rb'. ring_buffer_put RING_BUFFER_SIZE \<lparr>front = 0, back = 5, data = [40, 50, 20, 30]\<rparr> 60
                 = Some rb'
               \<and> front rb' = front \<lparr>front = 0, back = 5, data = [40, 50, 20, 30 :: ring_buffer_t]\<rparr>
               \<and> back rb' - front rb'
                   = back \<lparr>front = 0, back = 5, data = [40, 50, 20, 30 :: ring_buffer_t]\<rparr>
                     - front \<lparr>front = 0, back = 5, data = [40, 50, 20, 30 :: ring_buffer_t]\<rparr> + 1)"
  using C3_occupancy_after_read
    [of RING_BUFFER_SIZE "\<lparr>front = 0, back = 5, data = [40, 50, 20, 30]\<rparr>" 60]
  by (simp add: RING_BUFFER_SIZE_def rb_array_ok_def)

text \<open>
  Claim C4 as stated, \<open>back \<ge> front\<close> in every state reached from
  \<^verbatim>\<open>ring_buffer_init\<close>, fails: \<^verbatim>\<open>ring_buffer_get\<close> does not test for an empty
  buffer, and one call of it right after \<^verbatim>\<open>ring_buffer_init\<close> leaves \<open>front = 1\<close>
  and \<open>back = 0\<close>.
\<close>

theorem C4_counterexample:
  "run RING_BUFFER_SIZE [Op_get] (ring_buffer_init RING_BUFFER_SIZE)
   = Some ([Some 0], \<lparr>front = 1, back = 0, data = [0, 0, 0, 0]\<rparr>)
   \<and> \<not> (back \<lparr>front = 1, back = 0, data = [0, 0, 0, 0]\<rparr>
          \<ge> front \<lparr>front = 1, back = 0, data = [0, 0, 0, 0 :: ring_buffer_t]\<rparr>)"
  unfolding RING_BUFFER_SIZE_def by code_simp

text \<open>
  Claim C4, amended.  Start from \<^verbatim>\<open>ring_buffer_init\<close> and run any sequence of calls
  of the public functions in which \<^verbatim>\<open>ring_buffer_get\<close> is only called when
  \<^verbatim>\<open>ring_buffer_empty\<close> returns 0, and which has fewer than \<open>2^32\<close> calls of
  \<^verbatim>\<open>ring_buffer_put\<close>, so that \<open>back\<close> has not wrapped around.  Then every call
  returns and \<open>back \<ge> front\<close> holds at the end.
\<close>

theorem C4_order_of_cursors:
  assumes "n \<noteq> 0" and "reads_guarded n cs (ring_buffer_init n)"
    and "length (filter is_put cs) < 2 ^ 32"
  shows "\<exists>rs rb. run n cs (ring_buffer_init n) = Some (rs, rb) \<and> back rb \<ge> front rb"
proof -
  have "rb_array_ok n (ring_buffer_init n)" "front (ring_buffer_init n) \<le> back (ring_buffer_init n)"
    "unat (back (ring_buffer_init n)) + length (filter is_put cs) < 2 ^ 32"
    using assms(3) by (simp_all add: ring_buffer_init_def rb_array_ok_def)
  with assms(1,2) show ?thesis using run_keeps_order [of n "ring_buffer_init n" cs] by blast
qed

theorem C4_order_of_cursors_witness:
  "RING_BUFFER_SIZE \<noteq> 0
   \<and> reads_guarded RING_BUFFER_SIZE
        [Op_put 10, Op_put 20, Op_put 30, Op_put 40, Op_put 50, Op_put 60, Op_full, Op_peek,
         Op_get, Op_get, Op_get, Op_get, Op_empty, Op_clear]
        (ring_buffer_init RING_BUFFER_SIZE)
   \<and> length (filter is_put
        [Op_put 10, Op_put 20, Op_put 30, Op_put 40, Op_put 50, Op_put 60, Op_full, Op_peek,
         Op_get, Op_get, Op_get, Op_get, Op_empty, Op_clear]) < 2 ^ 32
   \<and> (\<exists>rs rb. run RING_BUFFER_SIZE
        [Op_put 10, Op_put 20, Op_put 30, Op_put 40, Op_put 50, Op_put 60, Op_full, Op_peek,
         Op_get, Op_get, Op_get, Op_get, Op_empty, Op_clear]
        (ring_buffer_init RING_BUFFER_SIZE) = Some (rs, rb) \<and> back rb \<ge> front rb)"
proof -
  have n: "RING_BUFFER_SIZE \<noteq> 0" by (simp add: RING_BUFFER_SIZE_def)
  have g: "reads_guarded RING_BUFFER_SIZE
        [Op_put 10, Op_put 20, Op_put 30, Op_put 40, Op_put 50, Op_put 60, Op_full, Op_peek,
         Op_get, Op_get, Op_get, Op_get, Op_empty, Op_clear]
        (ring_buffer_init RING_BUFFER_SIZE)"
    by code_simp
  have l: "length (filter is_put
        [Op_put 10, Op_put 20, Op_put 30, Op_put 40, Op_put 50, Op_put 60, Op_full, Op_peek,
         Op_get, Op_get, Op_get, Op_get, Op_empty, Op_clear]) < 2 ^ 32"
    by simp
  from n g l C4_order_of_cursors [OF n g l] show ?thesis by blast
qed

section \<open>The observers\<close>

text \<open>
  Claim C5.  For every structure, whatever was put before, \<^verbatim>\<open>ring_buffer_count\<close>
  returns the capacity when \<^verbatim>\<open>ring_buffer_full\<close> returns 1 and
  \<open>back - front\<close> otherwise, and the returned value lies between 0 and the capacity.
\<close>

theorem C5_count_range:
  "ring_buffer_count n rb = (if ring_buffer_full n rb = 1 then n else back rb - front rb)
   \<and> 0 \<le> ring_buffer_count n rb \<and> ring_buffer_count n rb \<le> n"
  by (auto simp: ring_buffer_count_def ring_buffer_full_def)

text \<open>
  Claim C9.  For every structure, \<^verbatim>\<open>ring_buffer_clear\<close> fills the array with zeros
  and sets \<open>front\<close> to \<open>back\<close>; \<open>back\<close> keeps its value, and
  \<^verbatim>\<open>ring_buffer_empty\<close> returns 1 (true) right afterwards.
\<close>

theorem C9_clear:
  "data (ring_buffer_clear n rb) = replicate (unat n) 0
   \<and> front (ring_buffer_clear n rb) = back rb
   \<and> back (ring_buffer_clear n rb) = back rb
   \<and> ring_buffer_empty (ring_buffer_clear n rb) = 1"
  by (simp add: ring_buffer_clear_def ring_buffer_empty_def)

section \<open>Reading\<close>

text \<open>
  Claim C8.  For every structure whose cursors are equal (the buffer is empty),
  \<^verbatim>\<open>ring_buffer_get\<close> still moves \<open>front\<close> to \<open>back + 1\<close>.  Afterwards
  \<^verbatim>\<open>ring_buffer_empty\<close> returns 0, \<^verbatim>\<open>ring_buffer_full\<close> returns 1, since
  \<open>back - front\<close> wraps around to the largest value, and \<^verbatim>\<open>ring_buffer_count\<close>
  returns the capacity.
\<close>

theorem C8_get_on_empty:
  assumes "n \<noteq> 0" and "rb_array_ok n rb" and "front rb = back rb"
  shows "\<exists>v rb'. ring_buffer_get n rb = Some (v, rb')
           \<and> front rb' = back rb + 1 \<and> back rb' = back rb
           \<and> ring_buffer_empty rb' = 0
           \<and> ring_buffer_full n rb' = 1
           \<and> ring_buffer_count n rb' = n"
proof -
  from assms have "\<not> n \<le> back rb - front rb"
    by (simp add: word_le_nat_alt unat_gt_0)
  with assms have "ring_buffer_get n rb
      = Some (data rb ! unat ((front rb + 1) mod n), rb\<lparr>front := front rb + 1\<rparr>)"
    by (simp add: get_ok)
  moreover have "back rb - (back rb + 1) = - 1" by simp
  ultimately show ?thesis using assms
    by (simp add: ring_buffer_empty_def ring_buffer_full_def ring_buffer_count_def)
qed

theorem C8_get_on_empty_witness:
  "RING_BUFFER_SIZE \<noteq> 0
   \<and> rb_array_ok RING_BUFFER_SIZE (ring_buffer_init RING_BUFFER_SIZE)
   \<and> front (ring_buffer_init RING_BUFFER_SIZE) = back (ring_buffer_init RING_BUFFER_SIZE)
   \<and> (\<exists>v rb'. ring_buffer_get RING_BUFFER_SIZE (ring_buffer_init RING_BUFFER_SIZE) = Some (v, rb')
           \<and> front rb' = back (ring_buffer_init RING_BUFFER_SIZE) + 1
           \<and> back rb' = back (ring_buffer_init RING_BUFFER_SIZE)
           \<and> ring_buffer_empty rb' = 0
           \<and> ring_buffer_full RING_BUFFER_SIZE rb' = 1
           \<and> ring_buffer_count RING_BUFFER_SIZE rb' = RING_BUFFER_SIZE)"
  using C8_get_on_empty [of RING_BUFFER_SIZE "ring_buffer_init RING_BUFFER_SIZE"]
  by (simp add: RING_BUFFER_SIZE_def rb_array_ok_def ring_buffer_init_def)



section \<open>Version 1.0.0 against version 2.0.0\<close>

text \<open>
  Claim C7.  When the capacity passes the header's power-of-two check, version 1.0.0
  (index masked with \<open>RING_BUFFER_SIZE - 1\<close>) and version 2.0.0 (index reduced by the
  remainder) cannot be told apart: from every structure, every sequence of calls of
  the functions both versions have gives the same returned values and the same
  structure, array contents included.
\<close>

theorem C7_mask_equals_modulo:
  "size_check n \<Longrightarrow> run_v1 n cs rb = run n (map op_of_v1 cs) rb"
proof (induction cs arbitrary: rb)
  case Nil
  show ?case by simp
next
  case (Cons c cs)
  show ?case
  proof (cases "step n (op_of_v1 c) rb")
    case None
    with Cons.prems show ?thesis by (simp add: step_v1_eq)
  next
    case (Some a)
    obtain r rb1 where "a = (r, rb1)" by (cases a)
    with Some Cons.prems Cons.IH [OF Cons.prems, of rb1] show ?thesis
      by (simp add: step_v1_eq)
  qed
qed

theorem C7_mask_equals_modulo_witness:
  "size_check RING_BUFFER_SIZE
   \<and> run_v1 RING_BUFFER_SIZE [V1_put 10, V1_put 20, V1_put 30, V1_put 40, V1_put 50, V1_count, V1_get, V1_clear, V1_empty]
       (ring_buffer_init_v1 RING_BUFFER_SIZE)
     = run RING_BUFFER_SIZE (map op_of_v1 [V1_put 10, V1_put 20, V1_put 30, V1_put 40, V1_put 50, V1_count, V1_get, V1_clear, V1_empty])
       (ring_buffer_init_v1 RING_BUFFER_SIZE)"
  using C7_mask_equals_modulo [of RING_BUFFER_SIZE
      "[V1_put 10, V1_put 20, V1_put 30, V1_put 40, V1_put 50, V1_count, V1_get, V1_clear, V1_empty]"
      "ring_buffer_init_v1 RING_BUFFER_SIZE"]
  by (simp add: size_check_def RING_BUFFER_SIZE_def)

section \<open>No access outside the array\<close>

text \<open>
  Claim C10.  In \<^verbatim>\<open>ring_buffer_put\<close>, \<^verbatim>\<open>ring_buffer_get\<close> and
  \<^verbatim>\<open>ring_buffer_peek\<close> the index is reduced below the capacity by the remainder
  (version 2.0.0) or by the mask (version 1.0.0) before the array is accessed: on a
  structure whose array has \<^verbatim>\<open>RING_BUFFER_SIZE\<close> elements no call, and no sequence of
  calls, accesses the array outside its bounds.
\<close>

theorem C10_no_out_of_bounds:
  assumes "n \<noteq> 0" and "rb_array_ok n rb"
  shows "ring_buffer_put n rb v \<noteq> None \<and> ring_buffer_get n rb \<noteq> None
       \<and> ring_buffer_peek n rb \<noteq> None
       \<and> ring_buffer_put_v1 n rb v \<noteq> None \<and> ring_buffer_get_v1 n rb \<noteq> None
       \<and> run n cs rb \<noteq> None \<and> run_v1 n cs1 rb \<noteq> None"
proof -
  have "ring_buffer_put n rb v \<noteq> None" using assms by (simp add: put_ok)
  moreover have "ring_buffer_get n rb \<noteq> None" using assms
    by (cases "n \<le> back rb - front rb") (simp_all add: get_ok get_ok_resync)
  moreover have "ring_buffer_peek n rb \<noteq> None" using assms
    by (cases "n \<le> back rb - front rb") (simp_all add: peek_ok peek_ok_resync)
  moreover have "ring_buffer_put_v1 n rb v \<noteq> None" using assms by (simp add: put_v1_ok)
  moreover have "ring_buffer_get_v1 n rb \<noteq> None" using get_v1_ok [OF assms] by auto
  moreover have "run n cs rb \<noteq> None" using run_array_ok [OF assms, of cs] by auto
  moreover have "run_v1 n cs1 rb \<noteq> None" using run_v1_array_ok [OF assms, of cs1] by auto
  ultimately show ?thesis by blast
qed

theorem C10_no_out_of_bounds_witness:
  "RING_BUFFER_SIZE \<noteq> 0
   \<and> rb_array_ok RING_BUFFER_SIZE (ring_buffer_init RING_BUFFER_SIZE)
   \<and> ring_buffer_put RING_BUFFER_SIZE (ring_buffer_init RING_BUFFER_SIZE) 10 \<noteq> None
   \<and> ring_buffer_get RING_BUFFER_SIZE (ring_buffer_init RING_BUFFER_SIZE) \<noteq> None
   \<and> ring_buffer_peek RING_BUFFER_SIZE (ring_buffer_init RING_BUFFER_SIZE) \<noteq> None
   \<and> ring_buffer_put_v1 RING_BUFFER_SIZE (ring_buffer_init RING_BUFFER_SIZE) 10 \<noteq> None
   \<and> ring_buffer_get_v1 RING_BUFFER_SIZE (ring_buffer_init RING_BUFFER_SIZE) \<noteq> None
   \<and> run RING_BUFFER_SIZE [Op_put 10, Op_peek, Op_get, Op_get]
         (ring_buffer_init RING_BUFFER_SIZE) \<noteq> None
   \<and> run_v1 RING_BUFFER_SIZE [V1_put 10, V1_get, V1_get]
         (ring_buffer_init RING_BUFFER_SIZE) \<noteq> None"
  using C10_no_out_of_bounds [of RING_BUFFER_SIZE "ring_buffer_init RING_BUFFER_SIZE" 10
      "[Op_put 10, Op_peek, Op_get, Op_get]" "[V1_put 10, V1_get, V1_get]"]
  by (simp add: RING_BUFFER_SIZE_def rb_array_ok_def ring_buffer_init_def)

end
